theory Spec2Isabelle
  imports Complex_Main "HOL-Library.Multiset" "HOL-Library.Log_Nat"
begin

section \<open>Brute-force TSP solver (python\_tsp/brute\_force.py)\<close>

subsection \<open>The scalars of an array\<close>

text \<open>
  The solver never does arithmetic itself: sums and comparisons are those of the array's
  element type. The operations it uses are collected in a record: the value written by
  \<open>a[:, 0] = 0\<close>, the reduction \<open>.sum()\<close> of a one-dimensional array, the comparison
  \<open>x < y\<close> of two scalars, and the comparison \<open>x < np.inf\<close> of a scalar with the Python
  float the search starts from.
\<close>

record 'a dtype =
  dt_zero :: 'a
  dt_sum :: "'a list \<Rightarrow> 'a"
  dt_less :: "'a \<Rightarrow> 'a \<Rightarrow> bool"
  dt_less_inf :: "'a \<Rightarrow> bool"

subsection \<open>64-bit floating-point numbers\<close>

text \<open>
  A \<open>float64\<close> value is a finite real, plus infinity, minus infinity or not-a-number.
  The two zeros are not distinguished (they compare equal), and \<open>Fin a\<close> is a value of
  the format only for the reals \<open>a\<close> that it represents, those with
  \<open>f64_round a = Fin a\<close>. \<open>f64_round\<close> rounds a real
  to the nearest \<open>float64\<close>, ties to even: 53 significant bits, the exponent of the least
  significant bit not below \<open>-1074\<close>, and a result of magnitude \<open>2 ^ 1024\<close> or more
  becomes infinite.
\<close>

datatype fl = Fin (the_Fin: real) | PInf | NInf | NaN

definition pow2 :: "int \<Rightarrow> real" where
  "pow2 k = (if 0 \<le> k then 2 ^ nat k else 1 / 2 ^ nat (- k))"

text \<open>The exponent \<open>e\<close> with \<open>2 ^ e \<le> x < 2 ^ (e + 1)\<close>, for \<open>x > 0\<close>.\<close>

definition ilog2 :: "real \<Rightarrow> int" where
  "ilog2 x = (if 1 \<le> x then bitlen \<lfloor>x\<rfloor> - 1 else - bitlen (\<lceil>1 / x\<rceil> - 1))"

definition round_half_even :: "real \<Rightarrow> int" where
  "round_half_even z =
     (let f = \<lfloor>z\<rfloor>; d = z - of_int f
      in if d < 1 / 2 then f else if 1 / 2 < d then f + 1 else if even f then f else f + 1)"

definition f64_round :: "real \<Rightarrow> fl" where
  "f64_round x =
     (if x = 0 then Fin 0
      else let a = \<bar>x\<bar>;
               e = max (ilog2 a) (- 1022);
               u = pow2 (e - 52);
               y = of_int (round_half_even (a / u)) * u
           in if 2 ^ 1024 \<le> y then (if 0 < x then PInf else NInf)
              else Fin (if 0 < x then y else - y))"

text \<open>
  Addition: the exact sum of two finite numbers is rounded; adding zero returns the other
  operand as it is. The special values follow IEEE 754.
\<close>

fun fl_add :: "fl \<Rightarrow> fl \<Rightarrow> fl" where
  "fl_add NaN y = NaN"
| "fl_add x NaN = NaN"
| "fl_add PInf NInf = NaN"
| "fl_add NInf PInf = NaN"
| "fl_add PInf y = PInf"
| "fl_add x PInf = PInf"
| "fl_add NInf y = NInf"
| "fl_add x NInf = NInf"
| "fl_add (Fin a) (Fin b) =
     (if a = 0 then Fin b else if b = 0 then Fin a else f64_round (a + b))"

text \<open>\<open>x < y\<close> on floats: every comparison with not-a-number is false.\<close>

fun fl_less :: "fl \<Rightarrow> fl \<Rightarrow> bool" where
  "fl_less NaN y = False"
| "fl_less x NaN = False"
| "fl_less x NInf = False"
| "fl_less NInf y = True"
| "fl_less PInf y = False"
| "fl_less x PInf = True"
| "fl_less (Fin a) (Fin b) = (a < b)"

text \<open>
  \<open>.sum()\<close> of a \<open>float64\<close> array is NumPy's pairwise summation. Fewer than 8
  elements are added from left to right, starting from zero. Up to 128 elements are added
  into 8 partial sums, block by block; the partial sums are added as a balanced tree and
  the remaining elements are added to the result one by one. Longer arrays are split in
  two parts, the first a multiple of 8 long. The reduction adds the result to its start
  value zero.
\<close>

function block_loop :: "fl list \<Rightarrow> fl list \<Rightarrow> fl list \<times> fl list" where
  "block_loop r a =
     (if 8 \<le> length a
      then block_loop (map (\<lambda>(x, y). fl_add x y) (zip r (take 8 a))) (drop 8 a)
      else (r, a))"
  by pat_completeness auto
termination
  by (relation "measure (\<lambda>(r, a). length a)") auto

function pairwise_sum :: "fl list \<Rightarrow> fl" where
  "pairwise_sum a =
     (if length a < 8 then foldl fl_add (Fin 0) a
      else if length a \<le> 128 then
        (let (r, rest) = block_loop (take 8 a) (drop 8 a);
             res = fl_add (fl_add (fl_add (r ! 0) (r ! 1)) (fl_add (r ! 2) (r ! 3)))
                          (fl_add (fl_add (r ! 4) (r ! 5)) (fl_add (r ! 6) (r ! 7)))
         in foldl fl_add res rest)
      else
        (let n2 = length a div 2 - (length a div 2) mod 8
         in fl_add (pairwise_sum (take n2 a)) (pairwise_sum (drop n2 a))))"
  by pat_completeness auto
termination
  by (relation "measure length") auto

definition float64_sum :: "fl list \<Rightarrow> fl" where
  "float64_sum a = fl_add (Fin 0) (pairwise_sum a)"

definition float64 :: "fl dtype" where
  "float64 = \<lparr>dt_zero = Fin 0, dt_sum = float64_sum, dt_less = fl_less,
              dt_less_inf = (\<lambda>x. fl_less x PInf)\<rparr>"

subsection \<open>64-bit integers\<close>

text \<open>
  An \<open>int64\<close> value is an integer from \<open>-2 ^ 63\<close> to \<open>2 ^ 63 - 1\<close>. Sums wrap around,
  and every \<open>int64\<close> is less than \<open>np.inf\<close>.
\<close>

definition wrap64 :: "int \<Rightarrow> int" where
  "wrap64 x = (x + 2 ^ 63) mod 2 ^ 64 - 2 ^ 63"

definition int64_sum :: "int list \<Rightarrow> int" where
  "int64_sum a = foldl (\<lambda>x y. wrap64 (x + y)) 0 a"

definition int64 :: "int dtype" where
  "int64 = \<lparr>dt_zero = 0, dt_sum = int64_sum, dt_less = (<), dt_less_inf = (\<lambda>x. True)\<rparr>"

subsection \<open>Arrays and the store\<close>

text \<open>
  A two-dimensional array is the list of its rows; the empty list is the array of shape
  \<open>(0, 0)\<close>. Arrays are mutable objects, so the solver works on a store of arrays and
  receives a reference to the caller's matrix. A fresh array is allocated at the end of
  the store.
\<close>

type_synonym 'a matrix = "'a list list"
type_synonym 'a heap = "'a matrix list"
type_synonym ref = nat

datatype error = IndexError | TypeError

definition shape0 :: "'a matrix \<Rightarrow> nat" where
  "shape0 m = length m"

definition shape1 :: "'a matrix \<Rightarrow> nat" where
  "shape1 m = (case m of [] \<Rightarrow> 0 | row # _ \<Rightarrow> length row)"

text \<open>\<open>distance_matrix.copy()\<close>: a new array with the same contents.\<close>

definition ndarray_copy :: "'a heap \<Rightarrow> ref \<Rightarrow> 'a heap \<times> ref" where
  "ndarray_copy h r = (h @ [h ! r], length h)"

text \<open>
  \<open>a[:, 0] = v\<close>: writes \<open>v\<close> into column 0 of every row of the array that \<open>r\<close>
  refers to. The index 0 is out of bounds for an array without columns.
\<close>

definition setitem_col0 :: "'a heap \<Rightarrow> ref \<Rightarrow> 'a \<Rightarrow> 'a heap \<times> (error + unit)" where
  "setitem_col0 h r v =
     (if shape1 (h ! r) = 0 then (h, Inl IndexError)
      else (h[r := map (\<lambda>row. row[0 := v]) (h ! r)], Inr ()))"

text \<open>
  \<open>a[ind1, ind2]\<close> with two index lists: the one-dimensional array of the entries
  \<open>a[ind1[k], ind2[k]]\<close>, or an \<open>IndexError\<close> when an index is out of bounds. The
  solver only passes index lists of equal length and without negative entries.
\<close>

fun getitem_fancy :: "'a matrix \<Rightarrow> nat list \<Rightarrow> nat list \<Rightarrow> error + 'a list" where
  "getitem_fancy m [] [] = Inr []"
| "getitem_fancy m (i # ind1) (j # ind2) =
     (if i < length m \<and> j < length (m ! i)
      then (case getitem_fancy m ind1 ind2 of
              Inl e \<Rightarrow> Inl e
            | Inr vs \<Rightarrow> Inr (m ! i ! j # vs))
      else Inl IndexError)"
| "getitem_fancy m _ _ = Inl IndexError"

subsection \<open>Enumeration of permutations\<close>

text \<open>
  \<open>itertools.permutations(iterable, r)\<close> yields the \<open>r\<close>-length permutations in the
  order of the positions of the input: the first element runs through the input from left
  to right, and for each choice the rest is enumerated in the same way from the remaining
  elements. \<open>picks xs\<close> lists every element of \<open>xs\<close> with the remaining elements.
\<close>

fun picks :: "'a list \<Rightarrow> ('a \<times> 'a list) list" where
  "picks [] = []"
| "picks (x # xs) = (x, xs) # map (\<lambda>(y, ys). (y, x # ys)) (picks xs)"

fun permutations_r :: "nat \<Rightarrow> 'a list \<Rightarrow> 'a list list" where
  "permutations_r 0 xs = [[]]"
| "permutations_r (Suc r) xs =
     concat (map (\<lambda>(y, ys). map ((#) y) (permutations_r r ys)) (picks xs))"

definition permutations :: "'a list \<Rightarrow> 'a list list" where
  "permutations xs = permutations_r (length xs) xs"

subsection \<open>The solver\<close>

text \<open>
  \<open>_permutation_distance\<close>: the sum of the entries at the positions paired from
  \<open>[0] + permutation\<close> and \<open>permutation + [0]\<close>.
\<close>

definition permutation_distance
    :: "'a dtype \<Rightarrow> nat list \<Rightarrow> 'a matrix \<Rightarrow> error + 'a" where
  "permutation_distance dt permutation distance_matrix =
     (let ind1 = [0] @ permutation;
          ind2 = permutation @ [0]
      in case getitem_fancy distance_matrix ind1 ind2 of
           Inl e \<Rightarrow> Inl e
         | Inr vs \<Rightarrow> Inr (dt_sum dt vs))"

text \<open>
  \<open>best_distance\<close> is the Python float \<open>np.inf\<close> until the first candidate replaces it
  with a scalar of the array. \<open>distance < best_distance\<close>:
\<close>

datatype 'a best = Infinity | Scalar 'a

fun less_best :: "'a dtype \<Rightarrow> 'a \<Rightarrow> 'a best \<Rightarrow> bool" where
  "less_best dt distance Infinity = dt_less_inf dt distance"
| "less_best dt distance (Scalar b) = dt_less dt distance b"

text \<open>
  The loop over the permutations. The state is \<open>(best_distance, best_solution)\<close>, with
  \<open>None\<close> for Python's \<open>None\<close>; an error raised by the distance computation ends
  the loop.
\<close>

fun search :: "'a dtype \<Rightarrow> 'a matrix \<Rightarrow> nat list list \<Rightarrow> 'a best \<times> nat list option
    \<Rightarrow> error + ('a best \<times> nat list option)" where
  "search dt distance_matrix [] st = Inr st"
| "search dt distance_matrix (permutation # rest) (best_distance, best_solution) =
     (case permutation_distance dt permutation distance_matrix of
        Inl e \<Rightarrow> Inl e
      | Inr distance \<Rightarrow>
          search dt distance_matrix rest
            (if less_best dt distance best_distance then (Scalar distance, Some permutation)
             else (best_distance, best_solution)))"

text \<open>
  \<open>solve_tsp_brute_force\<close> takes the element type, the store and the reference to the
  caller's matrix and returns the store after the call with the result: the pair of tour
  and distance, or the error raised. \<open>list(None)\<close> raises a \<open>TypeError\<close>.
\<close>

definition solve_tsp_brute_force
    :: "'a dtype \<Rightarrow> 'a heap \<Rightarrow> ref \<Rightarrow> bool \<Rightarrow> 'a heap \<times> (error + nat list \<times> 'a best)" where
  "solve_tsp_brute_force dt h distance_matrix open_tsp =
     (let points = [1..<shape0 (h ! distance_matrix)];
          (h1, dm) = (if open_tsp then ndarray_copy h distance_matrix
                      else (h, distance_matrix));
          (h2, r) = (if open_tsp then setitem_col0 h1 dm (dt_zero dt) else (h1, Inr ()))
      in case r of
           Inl e \<Rightarrow> (h2, Inl e)
         | Inr _ \<Rightarrow>
             (h2,
              case search dt (h2 ! dm) (permutations points) (Infinity, None) of
                Inl e \<Rightarrow> Inl e
              | Inr (best_distance, best_solution) \<Rightarrow>
                  (case best_solution of
                     None \<Rightarrow> Inl TypeError
                   | Some p \<Rightarrow>
                       Inr (([0] @ p) @ (if open_tsp then [] else [0]), best_distance))))"

text \<open>
  The result construction at the end of \<open>solve_tsp_brute_force\<close> (origin prepended,
  and appended again for a closed tour), named for the proofs below.
\<close>

definition finish
    :: "bool \<Rightarrow> error + ('a best \<times> nat list option) \<Rightarrow> error + nat list \<times> 'a best" where
  "finish open_tsp r =
     (case r of
        Inl e \<Rightarrow> Inl e
      | Inr (best_distance, best_solution) \<Rightarrow>
          (case best_solution of
             None \<Rightarrow> Inl TypeError
           | Some p \<Rightarrow> Inr (([0] @ p) @ (if open_tsp then [] else [0]), best_distance)))"

subsection \<open>Notions of the specification\<close>

text \<open>
  \<open>holds h r m\<close>: the reference \<open>r\<close> is valid in the store \<open>h\<close> and refers to an
  array with the contents \<open>m\<close>.
\<close>

definition holds :: "'a heap \<Rightarrow> ref \<Rightarrow> 'a matrix \<Rightarrow> bool" where
  "holds h r m \<longleftrightarrow> r < length h \<and> h ! r = m"

text \<open>An \<open>n\<close>-by-\<open>n\<close> matrix.\<close>

definition square :: "nat \<Rightarrow> 'a matrix \<Rightarrow> bool" where
  "square n m \<longleftrightarrow> length m = n \<and> (\<forall>row \<in> set m. length row = n)"

text \<open>
  The working matrix: the input matrix for a closed tour, the matrix with column 0 set to
  zero for an open tour.
\<close>

definition zero_column0 :: "'a dtype \<Rightarrow> 'a matrix \<Rightarrow> 'a matrix" where
  "zero_column0 dt m = map (\<lambda>row. row[0 := dt_zero dt]) m"

definition working_matrix :: "'a dtype \<Rightarrow> 'a matrix \<Rightarrow> bool \<Rightarrow> 'a matrix" where
  "working_matrix dt m open_tsp = (if open_tsp then zero_column0 dt m else m)"

text \<open>
  The paired-sum rule, in the words of the specification: for each position \<open>k\<close> the
  entry at \<open>(prev\<^sub>k, next\<^sub>k)\<close>, where \<open>prev\<close> is \<open>[0]\<close> followed by the permutation
  and \<open>next\<close> is the permutation followed by \<open>[0]\<close>; the distance is the sum of these
  entries.
\<close>

definition paired_sum :: "'a dtype \<Rightarrow> 'a matrix \<Rightarrow> nat list \<Rightarrow> 'a" where
  "paired_sum dt w p =
     dt_sum dt (map (\<lambda>k. w ! ((0 # p) ! k) ! ((p @ [0]) ! k)) [0..<Suc (length p)])"

text \<open>All permutations of the nodes \<open>1, \<dots>, n - 1\<close>.\<close>

definition all_permutations :: "nat \<Rightarrow> nat list set" where
  "all_permutations n = {q. distinct q \<and> set q = {1..<n}}"

text \<open>
  The part of a returned tour after the origin: the trailing origin of a closed tour is
  dropped as well.
\<close>

definition non_origin :: "bool \<Rightarrow> nat list \<Rightarrow> nat list" where
  "non_origin open_tsp tour = (if open_tsp then tl tour else butlast (tl tour))"

text \<open>
  What the search needs of the comparisons of an element type: \<open><\<close> is irreflexive and
  transitive, a scalar below one that is less than \<open>np.inf\<close> is less than \<open>np.inf\<close>, and
  among scalars less than \<open>np.inf\<close> a scalar that is neither above \<open>x\<close> nor below \<open>z\<close>
  rules out \<open>x < z\<close>.
\<close>

definition ordered :: "'a dtype \<Rightarrow> bool" where
  "ordered dt \<longleftrightarrow>
     (\<forall>x. \<not> dt_less dt x x) \<and>
     (\<forall>x y z. dt_less dt x y \<and> dt_less dt y z \<longrightarrow> dt_less dt x z) \<and>
     (\<forall>x y. dt_less dt x y \<and> dt_less_inf dt y \<longrightarrow> dt_less_inf dt x) \<and>
     (\<forall>x y z. dt_less_inf dt x \<and> dt_less_inf dt y \<and> dt_less_inf dt z \<and> dt_less dt x z
        \<longrightarrow> dt_less dt x y \<or> dt_less dt y z)"

text \<open>
  Setting column 0 to zero does not raise the distance of any tour whose distance is less
  than \<open>np.inf\<close>, and leaves it less than \<open>np.inf\<close>.
\<close>

definition return_leg_nonneg :: "'a dtype \<Rightarrow> nat \<Rightarrow> 'a matrix \<Rightarrow> bool" where
  "return_leg_nonneg dt n m \<longleftrightarrow>
     (\<forall>p \<in> all_permutations n.
        dt_less_inf dt (paired_sum dt m p) \<longrightarrow>
        dt_less_inf dt (paired_sum dt (zero_column0 dt m) p) \<and>
        \<not> dt_less dt (paired_sum dt m p) (paired_sum dt (zero_column0 dt m) p))"

text \<open>The symmetric triangle of the literal scenarios, as floats and as integers.\<close>

definition triangle :: "fl matrix" where
  "triangle = [[Fin 0, Fin 1, Fin 2], [Fin 1, Fin 0, Fin 3], [Fin 2, Fin 3, Fin 0]]"

definition triangle_int :: "int matrix" where
  "triangle_int = [[0, 1, 2], [1, 0, 3], [2, 3, 0]]"

text \<open>Matrices with finite entries whose tours all have an infinite distance.\<close>

definition huge2 :: "fl matrix" where
  "huge2 = [[Fin 0, Fin (2 ^ 1023)], [Fin (2 ^ 1023), Fin 0]]"

definition huge3 :: "fl matrix" where
  "huge3 = [[Fin 0, Fin (2 ^ 1023), Fin (2 ^ 1023)],
            [Fin (2 ^ 1023), Fin 0, Fin (2 ^ 1023)],
            [Fin (2 ^ 1023), Fin (2 ^ 1023), Fin 0]]"

section \<open>Rounding\<close>

lemma round_half_even_of_int: "round_half_even (of_int k) = k"
  by (simp add: round_half_even_def)

lemma round_half_even_ge_floor: "\<lfloor>z\<rfloor> \<le> round_half_even z"
  by (simp add: round_half_even_def Let_def)

lemma pow2_pos: "0 < pow2 k"
  by (simp add: pow2_def)

lemma f64_round_int_aux:
  assumes k: "0 < k" "k < 2 ^ 53"
  shows "of_int (round_half_even (of_int k / pow2 (max (ilog2 (of_int k)) (- 1022) - 52)))
           * pow2 (max (ilog2 (of_int k)) (- 1022) - 52) = (of_int k :: real)"
proof -
  let ?e = "max (ilog2 (of_int k)) (- 1022)"
  from k have "ilog2 (of_int k) = bitlen k - 1" by (simp add: ilog2_def)
  moreover from k have "1 \<le> bitlen k" by (simp add: bitlen_ge_iff_power)
  ultimately have e: "?e = bitlen k - 1" by simp
  from k have le: "bitlen k \<le> 53" by (simp add: bitlen_le_iff_power)
  define n where "n = nat (53 - bitlen k)"
  from le e have "?e - 52 = - int n" by (simp add: n_def)
  then have u: "pow2 (?e - 52) = 1 / 2 ^ n"
    by (simp add: pow2_def)
  have "of_int k / pow2 (?e - 52) = (of_int (k * 2 ^ n) :: real)"
    by (simp add: u)
  then have "round_half_even (of_int k / pow2 (?e - 52)) = k * 2 ^ n"
    by (simp only: round_half_even_of_int)
  then show ?thesis by (simp add: u)
qed

lemma f64_round_of_int:
  assumes "\<bar>k\<bar> < 2 ^ 53"
  shows "f64_round (of_int k) = Fin (of_int k)"
proof (cases "k = 0")
  case True
  then show ?thesis by (simp add: f64_round_def)
next
  case False
  with assms have a: "0 < \<bar>k\<bar>" "\<bar>k\<bar> < 2 ^ 53" by simp_all
  have abs: "\<bar>of_int k :: real\<bar> = of_int \<bar>k\<bar>" by simp
  have lt: "(of_int \<bar>k\<bar> :: real) < 2 ^ 1024"
  proof -
    from a(2) have "(of_int \<bar>k\<bar> :: real) \<le> 2 ^ 53" by (metis less_imp_le of_int_le_numeral_power_cancel_iff)
    also have "\<dots> < (2::real) ^ 1024" by simp
    finally show ?thesis .
  qed
  from False lt show ?thesis
    unfolding f64_round_def Let_def abs f64_round_int_aux[OF a]
    by (auto simp: not_le)
qed

lemma f64_round_numeral:
  "numeral w < (2 ^ 53 :: int) \<Longrightarrow> f64_round (numeral w) = Fin (numeral w)"
  "numeral w < (2 ^ 53 :: int) \<Longrightarrow> f64_round (- numeral w) = Fin (- numeral w)"
  "f64_round 1 = Fin 1" "f64_round (- 1) = Fin (- 1)" "f64_round 0 = Fin 0"
  using f64_round_of_int[of "numeral w"] f64_round_of_int[of "- numeral w"]
    f64_round_of_int[of 1] f64_round_of_int[of "- 1"] f64_round_of_int[of 0]
  by simp_all

lemma f64_round_overflow:
  assumes "2 ^ 1024 \<le> x"
  shows "f64_round x = PInf"
proof -
  let ?e = "max (ilog2 \<bar>x\<bar>) (- 1022)"
  from assms have x: "0 < x" "1 \<le> x" "\<bar>x\<bar> = x"
    by (smt (verit) zero_less_power one_le_power)+
  from assms have fl: "2 ^ 1024 \<le> \<lfloor>x\<rfloor>" by (simp add: le_floor_iff)
  then have pos: "0 < \<lfloor>x\<rfloor>" by (smt (verit) zero_less_power)
  from bitlen_bounds[OF pos] have b: "2 ^ nat (bitlen \<lfloor>x\<rfloor> - 1) \<le> \<lfloor>x\<rfloor>" "\<lfloor>x\<rfloor> < 2 ^ nat (bitlen \<lfloor>x\<rfloor>)"
    by simp_all
  from fl b(2) have "(2::int) ^ 1024 < 2 ^ nat (bitlen \<lfloor>x\<rfloor>)" by linarith
  then have "1024 < nat (bitlen \<lfloor>x\<rfloor>)" by (rule power_less_imp_less_exp[rotated]) simp
  then have e: "?e = bitlen \<lfloor>x\<rfloor> - 1" "1024 \<le> bitlen \<lfloor>x\<rfloor> - 1"
    using x by (simp_all add: ilog2_def)
  define n where "n = nat (bitlen \<lfloor>x\<rfloor> - 1 - 52)"
  from e have u: "pow2 (?e - 52) = 2 ^ n" and nn: "nat (bitlen \<lfloor>x\<rfloor> - 1) = n + 52" "972 \<le> n"
    by (simp_all add: pow2_def n_def)
  from b(1) nn have "(2::real) ^ (n + 52) \<le> of_int \<lfloor>x\<rfloor>"
    by (metis of_int_le_iff of_int_numeral of_int_power)
  also have "\<dots> \<le> x" by simp
  finally have "(2::real) ^ 52 \<le> x / 2 ^ n"
    by (simp add: power_add field_simps)
  then have "2 ^ 52 \<le> \<lfloor>x / 2 ^ n\<rfloor>" by (simp add: le_floor_iff)
  with round_half_even_ge_floor[of "x / 2 ^ n"] have "2 ^ 52 \<le> round_half_even (x / 2 ^ n)"
    by linarith
  then have "(2::real) ^ 52 \<le> of_int (round_half_even (x / 2 ^ n))"
    by (metis of_int_le_iff of_int_numeral of_int_power)
  then have "(2::real) ^ 52 * 2 ^ n \<le> of_int (round_half_even (x / 2 ^ n)) * 2 ^ n"
    by (simp add: mult_right_mono)
  moreover have "(2::real) ^ 1024 \<le> 2 ^ 52 * 2 ^ n"
  proof -
    from nn(2) have "(2::real) ^ 1024 \<le> 2 ^ (52 + n)" by (intro power_increasing) simp_all
    then show ?thesis by (simp add: power_add)
  qed
  ultimately have "(2::real) ^ 1024 \<le> of_int (round_half_even (x / 2 ^ n)) * 2 ^ n" by linarith
  with x show ?thesis
    unfolding f64_round_def Let_def x(3) u[unfolded x(3)] by (auto simp del: power_numeral)
qed

section \<open>The enumeration\<close>

lemma picks_mset: "(y, ys) \<in> set (picks xs) \<Longrightarrow> mset xs = add_mset y (mset ys)"
  by (induction xs arbitrary: y ys) auto

lemma picks_length: "(y, ys) \<in> set (picks xs) \<Longrightarrow> length xs = Suc (length ys)"
  by (induction xs arbitrary: y ys) auto

lemma picks_complete: "y \<in> set xs \<Longrightarrow> \<exists>ys. (y, ys) \<in> set (picks xs)"
proof (induction xs)
  case Nil
  then show ?case by simp
next
  case (Cons x xs)
  show ?case
  proof (cases "y = x")
    case True
    then show ?thesis by auto
  next
    case False
    with Cons obtain ys where "(y, ys) \<in> set (picks xs)" by auto
    then have "(y, x # ys) \<in> set (picks (x # xs))" by force
    then show ?thesis by blast
  qed
qed

lemma picks_set: "(y, ys) \<in> set (picks xs) \<Longrightarrow> set ys \<subseteq> set xs"
proof -
  assume "(y, ys) \<in> set (picks xs)"
  then have "set_mset (mset xs) = set_mset (add_mset y (mset ys))"
    by (simp only: picks_mset)
  then show ?thesis by auto
qed

lemma permutations_r_sound:
  "p \<in> set (permutations_r r xs) \<Longrightarrow> r = length xs \<Longrightarrow> mset p = mset xs"
proof (induction r arbitrary: xs p)
  case 0
  then show ?case by simp
next
  case (Suc r)
  from Suc.prems(1) obtain y ys p' where
    pk: "(y, ys) \<in> set (picks xs)" and p': "p' \<in> set (permutations_r r ys)" and p: "p = y # p'"
    by auto
  from pk Suc.prems(2) have "r = length ys" using picks_length by fastforce
  with Suc.IH p' have "mset p' = mset ys" by blast
  with p picks_mset[OF pk] show ?case by simp
qed

lemma permutations_r_complete:
  "mset p = mset xs \<Longrightarrow> p \<in> set (permutations_r (length xs) xs)"
proof (induction p arbitrary: xs)
  case Nil
  then show ?case by simp
next
  case (Cons y p)
  then have "y \<in> set xs" by (metis list.set_intros(1) mset_eq_setD)
  then obtain ys where pk: "(y, ys) \<in> set (picks xs)" using picks_complete by fastforce
  from picks_mset[OF pk] Cons.prems have "mset p = mset ys" by simp
  then have "p \<in> set (permutations_r (length ys) ys)" by (rule Cons.IH)
  moreover have "length xs = Suc (length ys)" by (rule picks_length[OF pk])
  ultimately show ?case using pk by force
qed

lemma set_permutations: "set (permutations xs) = {p. mset p = mset xs}"
  unfolding permutations_def
  using permutations_r_sound permutations_r_complete by blast

lemma permutations_Nil: "permutations [] = [[]]"
  by (simp add: permutations_def)

lemma permutations_nonempty: "permutations xs \<noteq> []"
proof -
  have "xs \<in> set (permutations xs)" by (simp add: set_permutations)
  then show ?thesis by auto
qed

lemma mset_points_iff:
  "mset p = mset [1..<n] \<longleftrightarrow> distinct p \<and> set p = {1..<n}"
  by (metis distinct_upt mset_eq_imp_distinct_iff mset_eq_setD set_eq_iff_mset_eq_distinct set_upt)

lemma all_permutations_eq: "all_permutations n = set (permutations [1..<n])"
  by (simp only: all_permutations_def set_permutations mset_points_iff)

lemma finite_all_permutations: "finite (all_permutations n)"
  by (simp add: all_permutations_eq)

lemma all_permutations_bound: "q \<in> all_permutations n \<Longrightarrow> set q \<subseteq> {..<n}"
  by (auto simp: all_permutations_def)

lemma all_permutations_length: "p \<in> all_permutations n \<Longrightarrow> length p = n - 1"
proof -
  assume "p \<in> all_permutations n"
  then have "distinct p" "set p = {1..<n}" by (simp_all add: all_permutations_def)
  then have "length p = card {1..<n}" by (metis distinct_card)
  then show ?thesis by simp
qed

section \<open>Distances\<close>

text \<open>
  On a square matrix no index of a candidate is out of bounds, and
  \<open>_permutation_distance\<close> returns the paired sum.
\<close>

lemma getitem_fancy_in_bounds:
  "length ind1 = length ind2 \<Longrightarrow>
   \<forall>(i, j) \<in> set (zip ind1 ind2). i < length m \<and> j < length (m ! i) \<Longrightarrow>
   getitem_fancy m ind1 ind2 = Inr (map (\<lambda>(i, j). m ! i ! j) (zip ind1 ind2))"
  by (induction ind1 ind2 rule: list_induct2) simp_all

lemma zip_tour_bounds:
  assumes "set p \<subseteq> {..<n}" "0 < n" "(i, j) \<in> set (zip (0 # p) (p @ [0]))"
  shows "i < n \<and> j < n"
proof -
  from assms(3) have "i \<in> set (0 # p)" "j \<in> set (p @ [0])"
    by (auto dest: set_zip_leftD set_zip_rightD)
  with assms(1,2) show ?thesis by auto
qed

lemma map_zip_nth:
  "length xs = length ys \<Longrightarrow>
   map (\<lambda>(i, j). f i j) (zip xs ys) = map (\<lambda>k. f (xs ! k) (ys ! k)) [0..<length xs]"
  by (rule nth_equalityI) simp_all

lemma permutation_distance_paired:
  assumes sq: "square n m" and n: "0 < n" and p: "set p \<subseteq> {..<n}"
  shows "permutation_distance dt p m = Inr (paired_sum dt m p)"
proof -
  let ?z = "zip (0 # p) (p @ [0])"
  have b: "\<forall>(i, j) \<in> set ?z. i < n \<and> j < n"
    using zip_tour_bounds[OF p n] by blast
  have "\<forall>(i, j) \<in> set ?z. i < length m \<and> j < length (m ! i)"
    using b sq by (auto simp: square_def)
  then have "getitem_fancy m (0 # p) (p @ [0]) = Inr (map (\<lambda>(i, j). m ! i ! j) ?z)"
    by (intro getitem_fancy_in_bounds) simp_all
  also have "map (\<lambda>(i, j). m ! i ! j) ?z
      = map (\<lambda>k. m ! ((0 # p) ! k) ! ((p @ [0]) ! k)) [0..<length (0 # p)]"
    by (rule map_zip_nth) simp
  finally have "getitem_fancy m ([0] @ p) (p @ [0])
      = Inr (map (\<lambda>k. m ! ((0 # p) ! k) ! ((p @ [0]) ! k)) [0..<Suc (length p)])"
    by (simp only: append_Cons append_Nil length_Cons)
  then show ?thesis
    by (simp only: permutation_distance_def Let_def sum.case paired_sum_def)
qed

lemma square_shape1: "square n m \<Longrightarrow> 0 < n \<Longrightarrow> shape1 m = n"
  by (cases m) (auto simp: square_def shape1_def)

lemma square_zero_column0: "square n m \<Longrightarrow> square n (zero_column0 dt m)"
  by (auto simp: square_def zero_column0_def)

lemma square_working: "square n m \<Longrightarrow> square n (working_matrix dt m b)"
  by (simp add: working_matrix_def square_zero_column0)

lemma fl_add_zero: "fl_add (Fin 0) x = x"
  by (cases x) simp_all

section \<open>The search loop\<close>

text \<open>
  The loop ends with \<open>best_solution = None\<close> exactly when no candidate is less than
  \<open>np.inf\<close>; otherwise it ends with a candidate and that candidate's distance.
\<close>

lemma search_kept_or_candidate:
  assumes "\<forall>q \<in> set ps. permutation_distance dt q w = Inr (f q)"
  shows "search dt w ps (Scalar b, Some p0) = Inr (Scalar b, Some p0) \<or>
         (\<exists>p \<in> set ps. search dt w ps (Scalar b, Some p0) = Inr (Scalar (f p), Some p))"
  using assms
proof (induction ps arbitrary: b p0)
  case Nil
  then show ?case by simp
next
  case (Cons q ps)
  from Cons.prems have dq: "permutation_distance dt q w = Inr (f q)"
    and rest: "\<forall>q \<in> set ps. permutation_distance dt q w = Inr (f q)" by simp_all
  show ?case
  proof (cases "dt_less dt (f q) b")
    case True
    then have "search dt w (q # ps) (Scalar b, Some p0) = search dt w ps (Scalar (f q), Some q)"
      using dq by simp
    with Cons.IH[OF rest, of "f q" q] show ?thesis by auto
  next
    case False
    then have "search dt w (q # ps) (Scalar b, Some p0) = search dt w ps (Scalar b, Some p0)"
      using dq by simp
    with Cons.IH[OF rest, of b p0] show ?thesis by auto
  qed
qed

lemma search_none_below_inf:
  assumes "\<forall>q \<in> set ps. permutation_distance dt q w = Inr (f q)"
    and "\<forall>q \<in> set ps. \<not> dt_less_inf dt (f q)"
  shows "search dt w ps (Infinity, None) = Inr (Infinity, None)"
  using assms by (induction ps) simp_all

lemma search_some_below_inf:
  assumes "\<forall>q \<in> set ps. permutation_distance dt q w = Inr (f q)"
    and "\<exists>q \<in> set ps. dt_less_inf dt (f q)"
  shows "\<exists>p \<in> set ps. search dt w ps (Infinity, None) = Inr (Scalar (f p), Some p)"
  using assms
proof (induction ps)
  case Nil
  then show ?case by simp
next
  case (Cons q ps)
  from Cons.prems(1) have dq: "permutation_distance dt q w = Inr (f q)"
    and rest: "\<forall>q \<in> set ps. permutation_distance dt q w = Inr (f q)" by simp_all
  show ?case
  proof (cases "dt_less_inf dt (f q)")
    case True
    then have "search dt w (q # ps) (Infinity, None) = search dt w ps (Scalar (f q), Some q)"
      using dq by simp
    with search_kept_or_candidate[OF rest, of "f q" q] show ?thesis by auto
  next
    case False
    then have "search dt w (q # ps) (Infinity, None) = search dt w ps (Infinity, None)"
      using dq by simp
    moreover from False Cons.prems(2) have "\<exists>q \<in> set ps. dt_less_inf dt (f q)" by auto
    ultimately show ?thesis using Cons.IH[OF rest] by auto
  qed
qed

text \<open>With ordered comparisons no candidate is below the distance the loop ends with.\<close>

lemma orderedD:
  assumes "ordered dt"
  shows "\<not> dt_less dt x x"
    and "dt_less dt x y \<Longrightarrow> dt_less dt y z \<Longrightarrow> dt_less dt x z"
    and "dt_less dt x y \<Longrightarrow> dt_less_inf dt y \<Longrightarrow> dt_less_inf dt x"
    and "dt_less_inf dt x \<Longrightarrow> dt_less_inf dt y \<Longrightarrow> dt_less_inf dt z \<Longrightarrow> dt_less dt x z
          \<Longrightarrow> dt_less dt x y \<or> dt_less dt y z"
  using assms unfolding ordered_def by blast+

lemma search_scalar_min:
  assumes ord: "ordered dt"
    and "\<forall>q \<in> set ps. permutation_distance dt q w = Inr (f q)"
    and "dt_less_inf dt b"
  shows "\<exists>b' p'. search dt w ps (Scalar b, Some p0) = Inr (Scalar b', Some p') \<and>
           dt_less_inf dt b' \<and> (b' = b \<or> dt_less dt b' b) \<and>
           (\<forall>q \<in> set ps. \<not> dt_less dt (f q) b')"
  using assms(2,3)
proof (induction ps arbitrary: b p0)
  case Nil
  then show ?case by simp
next
  case (Cons q ps)
  from Cons.prems(1) have dq: "permutation_distance dt q w = Inr (f q)"
    and rest: "\<forall>q \<in> set ps. permutation_distance dt q w = Inr (f q)" by simp_all
  show ?case
  proof (cases "dt_less dt (f q) b")
    case True
    then have step: "search dt w (q # ps) (Scalar b, Some p0) = search dt w ps (Scalar (f q), Some q)"
      using dq by simp
    from True Cons.prems(2) have "dt_less_inf dt (f q)" by (rule orderedD(3)[OF ord])
    from Cons.IH[OF rest this, of q] obtain b' p' where
      r: "search dt w ps (Scalar (f q), Some q) = Inr (Scalar b', Some p')"
      and bi: "dt_less_inf dt b'" and lb: "b' = f q \<or> dt_less dt b' (f q)"
      and mn: "\<forall>r \<in> set ps. \<not> dt_less dt (f r) b'" by blast
    from lb True have "dt_less dt b' b" using orderedD(2)[OF ord] by blast
    moreover from lb have "\<not> dt_less dt (f q) b'"
      using orderedD(1)[OF ord] orderedD(2)[OF ord] by blast
    ultimately show ?thesis using step r bi mn by auto
  next
    case False
    then have step: "search dt w (q # ps) (Scalar b, Some p0) = search dt w ps (Scalar b, Some p0)"
      using dq by simp
    from Cons.IH[OF rest Cons.prems(2), of p0] obtain b' p' where
      r: "search dt w ps (Scalar b, Some p0) = Inr (Scalar b', Some p')"
      and bi: "dt_less_inf dt b'" and lb: "b' = b \<or> dt_less dt b' b"
      and mn: "\<forall>r \<in> set ps. \<not> dt_less dt (f r) b'" by blast
    from lb False have "\<not> dt_less dt (f q) b'"
      using orderedD(2)[OF ord] by blast
    then show ?thesis using step r bi lb mn by auto
  qed
qed

lemma search_start_min:
  assumes ord: "ordered dt"
    and "\<forall>q \<in> set ps. permutation_distance dt q w = Inr (f q)"
    and "\<exists>q \<in> set ps. dt_less_inf dt (f q)"
  shows "\<exists>p \<in> set ps. search dt w ps (Infinity, None) = Inr (Scalar (f p), Some p) \<and>
           dt_less_inf dt (f p) \<and> (\<forall>q \<in> set ps. \<not> dt_less dt (f q) (f p))"
  using assms(2,3)
proof (induction ps)
  case Nil
  then show ?case by simp
next
  case (Cons q ps)
  from Cons.prems(1) have dq: "permutation_distance dt q w = Inr (f q)"
    and rest: "\<forall>q \<in> set ps. permutation_distance dt q w = Inr (f q)" by simp_all
  show ?case
  proof (cases "dt_less_inf dt (f q)")
    case True
    then have step: "search dt w (q # ps) (Infinity, None) = search dt w ps (Scalar (f q), Some q)"
      using dq by simp
    from search_scalar_min[OF ord rest True, of q] obtain b' p' where
      r: "search dt w ps (Scalar (f q), Some q) = Inr (Scalar b', Some p')"
      and bi: "dt_less_inf dt b'" and lb: "b' = f q \<or> dt_less dt b' (f q)"
      and mn: "\<forall>r \<in> set ps. \<not> dt_less dt (f r) b'" by blast
    from lb have nq: "\<not> dt_less dt (f q) b'"
      using orderedD(1)[OF ord] orderedD(2)[OF ord] by blast
    from search_kept_or_candidate[OF rest, of "f q" q] r
    have "(b' = f q \<and> p' = q) \<or> (p' \<in> set ps \<and> b' = f p')" by auto
    then have "p' \<in> set (q # ps) \<and> b' = f p'" by auto
    with step r bi mn nq show ?thesis by auto
  next
    case False
    then have step: "search dt w (q # ps) (Infinity, None) = search dt w ps (Infinity, None)"
      using dq by simp
    from False Cons.prems(2) have "\<exists>q \<in> set ps. dt_less_inf dt (f q)" by auto
    from Cons.IH[OF rest this] obtain p where p: "p \<in> set ps"
      "search dt w ps (Infinity, None) = Inr (Scalar (f p), Some p)"
      "dt_less_inf dt (f p)" "\<forall>r \<in> set ps. \<not> dt_less dt (f r) (f p)" by blast
    from False p(3) have "\<not> dt_less dt (f q) (f p)" using orderedD(3)[OF ord] by blast
    with step p show ?thesis by auto
  qed
qed

text \<open>The comparisons of both element types are ordered.\<close>

lemma fl_less_irrefl: "\<not> fl_less x x"
  by (cases x) simp_all

lemma fl_less_trans: "fl_less x y \<Longrightarrow> fl_less y z \<Longrightarrow> fl_less x z"
  by (cases x; cases y; cases z) simp_all

lemma fl_less_negtrans:
  "fl_less x PInf \<Longrightarrow> fl_less y PInf \<Longrightarrow> fl_less z PInf \<Longrightarrow> fl_less x z
    \<Longrightarrow> fl_less x y \<or> fl_less y z"
  by (cases x; cases y; cases z) auto

lemma ordered_float64: "ordered float64"
  unfolding ordered_def float64_def
  using fl_less_irrefl fl_less_trans fl_less_negtrans by (simp; blast)

lemma ordered_int64: "ordered int64"
  unfolding ordered_def int64_def by auto

section \<open>The solver as a function of the store\<close>

lemma solve_closed:
  "solve_tsp_brute_force dt h a False =
     (h, finish False (search dt (h ! a) (permutations [1..<length (h ! a)]) (Infinity, None)))"
  by (simp add: solve_tsp_brute_force_def finish_def shape0_def)

lemma solve_open:
  assumes "shape1 (h ! a) \<noteq> 0"
  shows "solve_tsp_brute_force dt h a True =
     (h @ [zero_column0 dt (h ! a)],
      finish True (search dt (zero_column0 dt (h ! a)) (permutations [1..<length (h ! a)])
        (Infinity, None)))"
  using assms
  by (simp add: solve_tsp_brute_force_def finish_def shape0_def ndarray_copy_def
      setitem_col0_def zero_column0_def)

lemma solve_open_error:
  assumes "shape1 (h ! a) = 0"
  shows "solve_tsp_brute_force dt h a True = (h @ [h ! a], Inl IndexError)"
  using assms
  by (simp add: solve_tsp_brute_force_def ndarray_copy_def setitem_col0_def)

lemma solve_open_heap:
  "fst (solve_tsp_brute_force dt h a True)
     = h @ [if shape1 (h ! a) = 0 then h ! a else zero_column0 dt (h ! a)]"
  by (simp add: solve_open solve_open_error)

lemma solve_result:
  assumes "holds h a m" "square n m" "0 < n"
  shows "snd (solve_tsp_brute_force dt h a open_tsp) =
     finish open_tsp (search dt (working_matrix dt m open_tsp) (permutations [1..<n])
       (Infinity, None))"
proof -
  from assms have m: "h ! a = m" and len: "length m = n"
    by (simp_all add: holds_def square_def)
  from square_shape1[OF assms(2,3)] assms(3) m have s1: "shape1 (h ! a) \<noteq> 0" by simp
  show ?thesis
  proof (cases open_tsp)
    case True
    with solve_open[OF s1] m len show ?thesis by (simp add: working_matrix_def)
  next
    case False
    with solve_closed[of dt h a] m len show ?thesis by (simp add: working_matrix_def)
  qed
qed

lemma candidates_paired:
  assumes sq: "square n m" and n: "0 < n"
  shows "\<forall>q \<in> set (permutations [1..<n]).
           permutation_distance dt q (working_matrix dt m open_tsp)
             = Inr (paired_sum dt (working_matrix dt m open_tsp) q)"
proof
  fix q assume "q \<in> set (permutations [1..<n])"
  then have "set q \<subseteq> {..<n}"
    using all_permutations_bound by (simp only: all_permutations_eq[symmetric])
  then show "permutation_distance dt q (working_matrix dt m open_tsp)
             = Inr (paired_sum dt (working_matrix dt m open_tsp) q)"
    by (rule permutation_distance_paired[OF square_working[OF sq] n])
qed

lemma solve_raises:
  assumes h: "holds h a m" and sq: "square n m" and n: "0 < n"
    and none: "\<forall>q \<in> all_permutations n.
                 \<not> dt_less_inf dt (paired_sum dt (working_matrix dt m open_tsp) q)"
  shows "snd (solve_tsp_brute_force dt h a open_tsp) = Inl TypeError"
proof -
  from none have "\<forall>q \<in> set (permutations [1..<n]).
      \<not> dt_less_inf dt (paired_sum dt (working_matrix dt m open_tsp) q)"
    by (simp only: all_permutations_eq)
  from search_none_below_inf[OF candidates_paired[OF sq n] this]
  show ?thesis by (simp add: solve_result[OF h sq n] finish_def)
qed

lemma solve_returns:
  assumes h: "holds h a m" and sq: "square n m" and n: "0 < n"
    and some: "\<exists>q \<in> all_permutations n.
                 dt_less_inf dt (paired_sum dt (working_matrix dt m open_tsp) q)"
  shows "\<exists>p \<in> all_permutations n. snd (solve_tsp_brute_force dt h a open_tsp) =
           Inr (0 # p @ (if open_tsp then [] else [0]),
                Scalar (paired_sum dt (working_matrix dt m open_tsp) p))"
proof -
  from some have "\<exists>q \<in> set (permutations [1..<n]).
      dt_less_inf dt (paired_sum dt (working_matrix dt m open_tsp) q)"
    by (simp only: all_permutations_eq)
  from search_some_below_inf[OF candidates_paired[OF sq n] this]
  obtain p where "p \<in> set (permutations [1..<n])"
    "search dt (working_matrix dt m open_tsp) (permutations [1..<n]) (Infinity, None)
       = Inr (Scalar (paired_sum dt (working_matrix dt m open_tsp) p), Some p)" by blast
  then show ?thesis
    by (auto simp: solve_result[OF h sq n] finish_def all_permutations_eq)
qed

lemma solve_min:
  assumes ord: "ordered dt" and h: "holds h a m" and sq: "square n m" and n: "0 < n"
    and some: "\<exists>q \<in> all_permutations n.
                 dt_less_inf dt (paired_sum dt (working_matrix dt m open_tsp) q)"
  shows "\<exists>p \<in> all_permutations n. snd (solve_tsp_brute_force dt h a open_tsp) =
           Inr (0 # p @ (if open_tsp then [] else [0]),
                Scalar (paired_sum dt (working_matrix dt m open_tsp) p)) \<and>
           dt_less_inf dt (paired_sum dt (working_matrix dt m open_tsp) p) \<and>
           (\<forall>q \<in> all_permutations n.
              \<not> dt_less dt (paired_sum dt (working_matrix dt m open_tsp) q)
                           (paired_sum dt (working_matrix dt m open_tsp) p))"
proof -
  from some have "\<exists>q \<in> set (permutations [1..<n]).
      dt_less_inf dt (paired_sum dt (working_matrix dt m open_tsp) q)"
    by (simp only: all_permutations_eq)
  from search_start_min[OF ord candidates_paired[OF sq n] this]
  obtain p where "p \<in> set (permutations [1..<n])"
    "search dt (working_matrix dt m open_tsp) (permutations [1..<n]) (Infinity, None)
       = Inr (Scalar (paired_sum dt (working_matrix dt m open_tsp) p), Some p)"
    "dt_less_inf dt (paired_sum dt (working_matrix dt m open_tsp) p)"
    "\<forall>q \<in> set (permutations [1..<n]).
              \<not> dt_less dt (paired_sum dt (working_matrix dt m open_tsp) q)
                           (paired_sum dt (working_matrix dt m open_tsp) p)" by blast
  then show ?thesis
    by (auto simp: solve_result[OF h sq n] finish_def all_permutations_eq)
qed

section \<open>Example data\<close>

lemmas eval_simps = solve_tsp_brute_force_def shape0_def shape1_def ndarray_copy_def
  setitem_col0_def permutations_def permutation_distance_def float64_def float64_sum_def
  int64_def int64_sum_def wrap64_def f64_round_numeral f64_round_overflow upt_rec

lemma holds_self: "holds [m] 0 m"
  by (simp add: holds_def)

lemma triangle_square: "square 3 triangle"
  by (simp add: square_def triangle_def)

lemma triangle_return_leg: "return_leg_nonneg float64 3 triangle"
  by (simp add: return_leg_nonneg_def all_permutations_eq permutations_def upt_rec
      paired_sum_def zero_column0_def triangle_def float64_def float64_sum_def
      f64_round_numeral)

text \<open>The literal scenario on an array of integers.\<close>

lemma literal_scenario_int64:
  "snd (solve_tsp_brute_force int64 [triangle_int] 0 False) = Inr ([0, 1, 2, 0], Scalar 6) \<and>
   snd (solve_tsp_brute_force int64 [triangle_int] 0 True) = Inr ([0, 1, 2], Scalar 4)"
  by (simp add: eval_simps triangle_int_def)

text \<open>
  Rounding: \<open>1e16 + 1\<close> is a tie between two \<open>float64\<close> values and rounds to
  \<open>1e16\<close>. On \<open>[[0, 1e16, 1e16], [0, 0, 1], [0, 0, 0]]\<close> both tours therefore have the
  distance \<open>1e16\<close>, and the first one is kept.
\<close>

lemma f64_round_tie: "f64_round 10000000000000001 = Fin 10000000000000000"
  by code_simp

lemma rounding_scenario:
  "snd (solve_tsp_brute_force float64
          [[[Fin 0, Fin (10 ^ 16), Fin (10 ^ 16)], [Fin 0, Fin 0, Fin 1], [Fin 0, Fin 0, Fin 0]]]
          0 False)
     = Inr ([0, 1, 2, 0], Scalar (Fin (10 ^ 16)))"
  by (simp add: eval_simps f64_round_tie)

text \<open>
  Wrap-around: on the \<open>int64\<close> matrix \<open>[[0, 2 ^ 62], [2 ^ 62, 0]]\<close> the closed distance
  wraps to \<open>-2 ^ 63\<close> and is below the open distance \<open>2 ^ 62\<close>; setting column 0 to
  zero raises the distance of the tour.
\<close>

lemma int64_wrap_scenario:
  "snd (solve_tsp_brute_force int64 [[[0, 2 ^ 62], [2 ^ 62, 0]]] 0 False)
     = Inr ([0, 1, 0], Scalar (- (2 ^ 63))) \<and>
   snd (solve_tsp_brute_force int64 [[[0, 2 ^ 62], [2 ^ 62, 0]]] 0 True)
     = Inr ([0, 1], Scalar (2 ^ 62)) \<and>
   \<not> return_leg_nonneg int64 2 [[0, 2 ^ 62], [2 ^ 62, 0]]"
  by (simp add: eval_simps return_leg_nonneg_def all_permutations_eq paired_sum_def
      zero_column0_def)

section \<open>The claims\<close>

text \<open>
  Claim C1 says that for every matrix with finite entries the solver returns the least
  tour distance and a tour that has it. On the \<open>float64\<close> matrix
  \<open>[[0, 2 ^ 1023], [2 ^ 1023, 0]]\<close> all entries are finite, the only candidate is
  \<open>[1]\<close>, and its distance \<open>2 ^ 1023 + 2 ^ 1023\<close> overflows to \<open>inf\<close>. The least
  distance is \<open>inf\<close>, but \<open>inf < inf\<close> is false, \<open>best_solution\<close> stays \<open>None\<close> and
  the call raises a \<open>TypeError\<close> instead of returning.
\<close>

theorem finite_overflow_raises:
  "huge2 = [[Fin 0, Fin (2 ^ 1023)], [Fin (2 ^ 1023), Fin 0]] \<and>
   permutations [1..<shape0 huge2] = [[1]] \<and>
   permutation_distance float64 [1] huge2 = Inr PInf \<and>
   snd (solve_tsp_brute_force float64 [huge2] 0 False) = Inl TypeError"
  by (simp add: eval_simps huge2_def)

text \<open>
  Claim C2. For an \<open>n\<close>-by-\<open>n\<close> matrix with \<open>n \<ge> 1\<close>, of any element type and for
  both values of \<open>open_tsp\<close>, every tour that the solver returns is \<open>[0] + p\<close>, followed
  by \<open>[0]\<close> exactly when \<open>open_tsp\<close> is false, where \<open>[0] + p\<close> has no repeated node
  and its nodes are exactly \<open>0, \<dots>, n - 1\<close>; the tour has length \<open>n\<close> when open and
  \<open>n + 1\<close> when closed. The solver returns such a tour unless no tour has a distance less
  than \<open>np.inf\<close>; then it raises a \<open>TypeError\<close>.
\<close>

theorem tour_is_permutation:
  assumes "holds h a m" and "square n m" and "1 \<le> n"
  shows "(snd (solve_tsp_brute_force dt h a open_tsp) = Inl TypeError \<and>
          (\<forall>q \<in> all_permutations n.
             \<not> dt_less_inf dt (paired_sum dt (working_matrix dt m open_tsp) q))) \<or>
         (\<exists>p d. snd (solve_tsp_brute_force dt h a open_tsp) =
             Inr (0 # p @ (if open_tsp then [] else [0]), d) \<and>
           distinct (0 # p) \<and> set (0 # p) = {0..<n} \<and>
           length (0 # p @ (if open_tsp then [] else [0])) = (if open_tsp then n else n + 1))"
proof (cases "\<exists>q \<in> all_permutations n.
                 dt_less_inf dt (paired_sum dt (working_matrix dt m open_tsp) q)")
  case False
  from assms(3) have n: "0 < n" by simp
  from False have none: "\<forall>q \<in> all_permutations n.
      \<not> dt_less_inf dt (paired_sum dt (working_matrix dt m open_tsp) q)" by blast
  from solve_raises[OF assms(1,2) n none] none show ?thesis by blast
next
  case True
  from assms(3) have n: "0 < n" by simp
  from solve_returns[OF assms(1,2) n True]
  obtain p where p: "p \<in> all_permutations n"
    and r: "snd (solve_tsp_brute_force dt h a open_tsp) =
       Inr (0 # p @ (if open_tsp then [] else [0]),
            Scalar (paired_sum dt (working_matrix dt m open_tsp) p))"
    by blast
  from p have d: "distinct p" and s: "set p = {1..<n}" by (simp_all add: all_permutations_def)
  from d s have "distinct (0 # p)" by simp
  moreover from s n have "set (0 # p) = {0..<n}" by auto
  moreover from all_permutations_length[OF p] n
  have "length (0 # p @ (if open_tsp then [] else [0])) = (if open_tsp then n else n + 1)"
    by simp
  ultimately show ?thesis using r by blast
qed

theorem tour_is_permutation_witness:
  "holds [triangle] 0 triangle \<and> square 3 triangle \<and> (1::nat) \<le> 3 \<and>
   snd (solve_tsp_brute_force float64 [triangle] 0 True) = Inr ([0, 1, 2], Scalar (Fin 4)) \<and>
   ((snd (solve_tsp_brute_force float64 [triangle] 0 True) = Inl TypeError \<and>
          (\<forall>q \<in> all_permutations 3.
             \<not> dt_less_inf float64 (paired_sum float64 (working_matrix float64 triangle True) q))) \<or>
    (\<exists>p d. snd (solve_tsp_brute_force float64 [triangle] 0 True) = Inr (0 # p @ [], d) \<and>
           distinct (0 # p) \<and> set (0 # p) = {0..<3} \<and> length (0 # p @ []) = 3))"
proof -
  have n: "(1::nat) \<le> 3" by simp
  have r: "snd (solve_tsp_brute_force float64 [triangle] 0 True) = Inr ([0, 1, 2], Scalar (Fin 4))"
    by (simp add: eval_simps triangle_def)
  from tour_is_permutation[OF holds_self triangle_square n, of float64 True]
  show ?thesis using holds_self triangle_square r by simp
qed

text \<open>
  Claim C3. For the matrix \<open>[[0,1,2],[1,0,3],[2,3,0]]\<close> the closed call returns the tour
  \<open>[0,1,2,0]\<close> with distance 6 and the open call returns \<open>[0,1,2]\<close> with distance 4.
  The enumeration yields \<open>[1,2]\<close> before \<open>[2,1]\<close>, and both have the closed distance 6.
\<close>

theorem literal_scenario:
  assumes "holds h a triangle"
  shows "snd (solve_tsp_brute_force float64 h a False) = Inr ([0, 1, 2, 0], Scalar (Fin 6)) \<and>
         snd (solve_tsp_brute_force float64 h a True) = Inr ([0, 1, 2], Scalar (Fin 4)) \<and>
         permutations [1..<shape0 triangle] = [[1, 2], [2, 1]] \<and>
         permutation_distance float64 [1, 2] triangle = Inr (Fin 6) \<and>
         permutation_distance float64 [2, 1] triangle = Inr (Fin 6)"
proof -
  have n: "(0::nat) < 3" by simp
  have "search float64 (working_matrix float64 triangle False) (permutations [1..<3])
          (Infinity, None) = Inr (Scalar (Fin 6), Some [1, 2])"
    by (simp add: eval_simps working_matrix_def triangle_def)
  then have "snd (solve_tsp_brute_force float64 h a False) = Inr ([0, 1, 2, 0], Scalar (Fin 6))"
    by (simp add: solve_result[OF assms triangle_square n] finish_def)
  moreover have "search float64 (working_matrix float64 triangle True) (permutations [1..<3])
          (Infinity, None) = Inr (Scalar (Fin 4), Some [1, 2])"
    by (simp add: eval_simps working_matrix_def zero_column0_def triangle_def)
  then have "snd (solve_tsp_brute_force float64 h a True) = Inr ([0, 1, 2], Scalar (Fin 4))"
    by (simp add: solve_result[OF assms triangle_square n] finish_def)
  moreover have "permutations [1..<shape0 triangle] = [[1, 2], [2, 1]]"
    by (simp add: eval_simps triangle_def)
  moreover have "permutation_distance float64 [1, 2] triangle = Inr (Fin 6)"
    by (simp add: eval_simps triangle_def)
  moreover have "permutation_distance float64 [2, 1] triangle = Inr (Fin 6)"
    by (simp add: eval_simps triangle_def)
  ultimately show ?thesis by blast
qed

theorem literal_scenario_witness:
  "holds [triangle] 0 triangle \<and>
   snd (solve_tsp_brute_force float64 [triangle] 0 False) = Inr ([0, 1, 2, 0], Scalar (Fin 6)) \<and>
   snd (solve_tsp_brute_force float64 [triangle] 0 True) = Inr ([0, 1, 2], Scalar (Fin 4))"
  using literal_scenario[OF holds_self] holds_self by simp

text \<open>
  Claim C4 says that, when several permutations have the least distance, the first of them
  in the order of the enumeration is returned. On the 3-by-3 \<open>float64\<close> matrix with
  zero diagonal and \<open>2 ^ 1023\<close> elsewhere the entries are finite and both permutations,
  \<open>[1,2]\<close> and \<open>[2,1]\<close>, have the distance \<open>inf\<close>. Neither is less than the start value
  \<open>inf\<close>, so the first one is not kept and the call raises a \<open>TypeError\<close>.
\<close>

theorem tied_infinite_tours_raise:
  "huge3 = [[Fin 0, Fin (2 ^ 1023), Fin (2 ^ 1023)],
            [Fin (2 ^ 1023), Fin 0, Fin (2 ^ 1023)],
            [Fin (2 ^ 1023), Fin (2 ^ 1023), Fin 0]] \<and>
   permutations [1..<shape0 huge3] = [[1, 2], [2, 1]] \<and>
   permutation_distance float64 [1, 2] huge3 = Inr PInf \<and>
   permutation_distance float64 [2, 1] huge3 = Inr PInf \<and>
   snd (solve_tsp_brute_force float64 [huge3] 0 False) = Inl TypeError"
  by (simp add: eval_simps huge3_def)

text \<open>
  Claim C5, as stated: the closed distance is at least the open distance on every matrix.
  It fails when an entry of column 0 is negative: on \<open>[[0,1],[-5,0]]\<close> the closed call
  returns distance \<open>-4\<close> and the open call distance \<open>1\<close>.
\<close>

theorem closed_ge_open_counterexample:
  "snd (solve_tsp_brute_force float64 [[[Fin 0, Fin 1], [Fin (- 5), Fin 0]]] 0 False)
     = Inr ([0, 1, 0], Scalar (Fin (- 4))) \<and>
   snd (solve_tsp_brute_force float64 [[[Fin 0, Fin 1], [Fin (- 5), Fin 0]]] 0 True)
     = Inr ([0, 1], Scalar (Fin 1)) \<and>
   fl_less (Fin (- 4)) (Fin 1)"
  by (simp add: eval_simps)

text \<open>
  Claim C5, amended. Take an \<open>n\<close>-by-\<open>n\<close> matrix with \<open>n \<ge> 1\<close> of an element type with
  ordered comparisons, on which setting column 0 to zero raises the distance of no tour
  (of those with a distance less than \<open>np.inf\<close>). Whenever the closed call returns a
  distance, the open call returns one too, and the open distance is not greater than the
  closed distance.
\<close>

theorem closed_ge_open:
  assumes "ordered dt" and "holds h a m" and "square n m" and "1 \<le> n"
    and "return_leg_nonneg dt n m"
    and "snd (solve_tsp_brute_force dt h a False) = Inr (tour_c, d_c)"
  shows "\<exists>c tour_o d_o.
           d_c = Scalar c \<and>
           snd (solve_tsp_brute_force dt h a True) = Inr (tour_o, Scalar d_o) \<and>
           \<not> dt_less dt c d_o"
proof -
  let ?fc = "paired_sum dt m" and ?fo = "paired_sum dt (zero_column0 dt m)"
  from assms(4) have n: "0 < n" by simp
  have wc: "working_matrix dt m False = m" and wo: "working_matrix dt m True = zero_column0 dt m"
    by (simp_all add: working_matrix_def)
  have "\<exists>q \<in> all_permutations n. dt_less_inf dt (?fc q)"
  proof (rule ccontr)
    assume "\<not> (\<exists>q \<in> all_permutations n. dt_less_inf dt (?fc q))"
    then have "\<forall>q \<in> all_permutations n.
        \<not> dt_less_inf dt (paired_sum dt (working_matrix dt m False) q)"
      by (simp add: wc)
    from solve_raises[OF assms(2,3) n this] assms(6) show False by simp
  qed
  then have "\<exists>q \<in> all_permutations n.
      dt_less_inf dt (paired_sum dt (working_matrix dt m False) q)" by (simp add: wc)
  from solve_min[OF assms(1,2,3) n this] assms(6)
  obtain pc where pc: "pc \<in> all_permutations n" "d_c = Scalar (?fc pc)"
    "dt_less_inf dt (?fc pc)" by (auto simp: wc)
  from assms(5) pc(1,3) have leg: "dt_less_inf dt (?fo pc)" "\<not> dt_less dt (?fc pc) (?fo pc)"
    unfolding return_leg_nonneg_def by blast+
  from pc(1) leg(1) have "\<exists>q \<in> all_permutations n.
      dt_less_inf dt (paired_sum dt (working_matrix dt m True) q)" by (auto simp: wo)
  from solve_min[OF assms(1,2,3) n this]
  obtain po where po: "snd (solve_tsp_brute_force dt h a True) = Inr (0 # po, Scalar (?fo po))"
    "dt_less_inf dt (?fo po)" "\<forall>q \<in> all_permutations n. \<not> dt_less dt (?fo q) (?fo po)"
    by (auto simp: wo)
  from po(3) pc(1) have "\<not> dt_less dt (?fo pc) (?fo po)" by blast
  with leg(2) orderedD(4)[OF assms(1) pc(3) leg(1) po(2)]
  have "\<not> dt_less dt (?fc pc) (?fo po)" by blast
  with pc(2) po(1) show ?thesis by blast
qed

theorem closed_ge_open_witness:
  "ordered float64 \<and> holds [triangle] 0 triangle \<and> square 3 triangle \<and> (1::nat) \<le> 3 \<and>
   return_leg_nonneg float64 3 triangle \<and>
   snd (solve_tsp_brute_force float64 [triangle] 0 False) = Inr ([0, 1, 2, 0], Scalar (Fin 6)) \<and>
   (\<exists>c tour_o d_o.
           Scalar (Fin 6) = Scalar c \<and>
           snd (solve_tsp_brute_force float64 [triangle] 0 True) = Inr (tour_o, Scalar d_o) \<and>
           \<not> dt_less float64 c d_o)"
proof -
  have n: "(1::nat) \<le> 3" by simp
  have r: "snd (solve_tsp_brute_force float64 [triangle] 0 False)
             = Inr ([0, 1, 2, 0], Scalar (Fin 6))"
    by (simp add: eval_simps triangle_def)
  from closed_ge_open[OF ordered_float64 holds_self triangle_square n triangle_return_leg r]
  show ?thesis
    using ordered_float64 holds_self[of triangle] triangle_square triangle_return_leg r by simp
qed

text \<open>
  Claim C6 says that the call returns with an infinite best distance when every candidate
  tour has an infinite distance. On \<open>[[0, inf], [inf, 0]]\<close> the only candidate, \<open>[1]\<close>,
  has the distance \<open>inf\<close>, which is not less than the start value \<open>inf\<close>; so
  \<open>best_solution\<close> is still \<open>None\<close> after the loop and \<open>list(best_solution)\<close> raises
  a \<open>TypeError\<close>. The same happens on \<open>[[nan]]\<close>.
\<close>

theorem infinite_tours_raise:
  "permutations [1..<shape0 [[Fin 0, PInf], [PInf, Fin 0]]] = [[1]] \<and>
   permutation_distance float64 [1] [[Fin 0, PInf], [PInf, Fin 0]] = Inr PInf \<and>
   snd (solve_tsp_brute_force float64 [[[Fin 0, PInf], [PInf, Fin 0]]] 0 False) = Inl TypeError \<and>
   snd (solve_tsp_brute_force float64 [[[NaN]]] 0 False) = Inl TypeError"
  by (simp add: eval_simps)

text \<open>
  Claim C7, as stated: on a 1-by-1 matrix the returned distance is the entry of the matrix,
  open or closed. It fails for the open call, which computes on the copy with column 0 set
  to zero: on \<open>[[5]]\<close> it returns distance 0.
\<close>

theorem single_node_open_counterexample:
  "snd (solve_tsp_brute_force float64 [[[Fin 5]]] 0 True) = Inr ([0], Scalar (Fin 0)) \<and>
   Fin 0 \<noteq> Fin 5"
  by (simp add: eval_simps)

text \<open>
  Claim C7, amended. On a 1-by-1 matrix \<open>[[x]]\<close> the open call returns the tour \<open>[0]\<close>
  with distance 0, and the closed call returns the tour \<open>[0, 0]\<close> with distance \<open>x\<close>
  whenever \<open>x\<close> is less than plus infinity (in particular when it is finite).
\<close>

theorem single_node:
  assumes "holds h a [[x]]"
  shows "snd (solve_tsp_brute_force float64 h a True) = Inr ([0], Scalar (Fin 0)) \<and>
         (fl_less x PInf \<longrightarrow>
            snd (solve_tsp_brute_force float64 h a False) = Inr ([0, 0], Scalar x))"
proof -
  have sq: "square 1 [[x]]" by (simp add: square_def)
  have n: "(0::nat) < 1" by simp
  have "snd (solve_tsp_brute_force float64 h a True) = Inr ([0], Scalar (Fin 0))"
    by (simp add: solve_result[OF assms sq n] permutations_Nil working_matrix_def
        zero_column0_def permutation_distance_def float64_def float64_sum_def finish_def)
  moreover have "snd (solve_tsp_brute_force float64 h a False) = Inr ([0, 0], Scalar x)"
    if "fl_less x PInf"
    using that
    by (simp add: solve_result[OF assms sq n] permutations_Nil working_matrix_def
        permutation_distance_def float64_def float64_sum_def fl_add_zero finish_def)
  ultimately show ?thesis by blast
qed

theorem single_node_witness:
  "holds [[[Fin 7]]] 0 [[Fin 7]] \<and> fl_less (Fin 7) PInf \<and>
   snd (solve_tsp_brute_force float64 [[[Fin 7]]] 0 True) = Inr ([0], Scalar (Fin 0)) \<and>
   snd (solve_tsp_brute_force float64 [[[Fin 7]]] 0 False) = Inr ([0, 0], Scalar (Fin 7))"
  using single_node[OF holds_self, of "Fin 7"] holds_self[of "[[Fin 7]]"] by simp

text \<open>
  Claim C8. After the call the caller's reference still refers to an array with the same
  contents, for every input matrix and both values of \<open>open_tsp\<close>, also when the call
  raises. No array that existed before the call is changed (the open call only adds its
  copy to the store), and the closed call leaves the whole store as it was.
\<close>

theorem caller_matrix_unchanged:
  assumes "holds h a m"
  shows "holds (fst (solve_tsp_brute_force dt h a open_tsp)) a m \<and>
         take (length h) (fst (solve_tsp_brute_force dt h a open_tsp)) = h \<and>
         fst (solve_tsp_brute_force dt h a False) = h"
proof (cases open_tsp)
  case True
  with assms show ?thesis
    by (simp add: solve_open_heap solve_closed holds_def nth_append)
next
  case False
  with assms show ?thesis by (simp add: solve_closed)
qed

theorem caller_matrix_unchanged_witness:
  "holds [triangle] 0 triangle \<and>
   holds (fst (solve_tsp_brute_force float64 [triangle] 0 True)) 0 triangle \<and>
   take (length [triangle]) (fst (solve_tsp_brute_force float64 [triangle] 0 True)) = [triangle] \<and>
   fst (solve_tsp_brute_force float64 [triangle] 0 False) = [triangle]"
  using caller_matrix_unchanged[OF holds_self, where dt = float64 and open_tsp = True]
    holds_self[of triangle]
  by simp

text \<open>
  Claim C9. For an \<open>n\<close>-by-\<open>n\<close> matrix with \<open>n \<ge> 1\<close>, whenever the call returns a tour
  and a distance, the tour without its origin (and without the trailing origin of a closed
  tour) is a permutation of \<open>1, \<dots>, n - 1\<close> and the distance is the paired sum of that
  permutation on the working matrix. The call returns unless no tour has a distance less
  than \<open>np.inf\<close>; then it raises a \<open>TypeError\<close>.
\<close>

theorem result_consistent:
  assumes "holds h a m" and "square n m" and "1 \<le> n"
  shows "(snd (solve_tsp_brute_force dt h a open_tsp) = Inl TypeError \<and>
          (\<forall>q \<in> all_permutations n.
             \<not> dt_less_inf dt (paired_sum dt (working_matrix dt m open_tsp) q))) \<or>
         (\<exists>tour d. snd (solve_tsp_brute_force dt h a open_tsp) = Inr (tour, Scalar d) \<and>
            non_origin open_tsp tour \<in> all_permutations n \<and>
            d = paired_sum dt (working_matrix dt m open_tsp) (non_origin open_tsp tour))"
proof (cases "\<exists>q \<in> all_permutations n.
                 dt_less_inf dt (paired_sum dt (working_matrix dt m open_tsp) q)")
  case False
  from assms(3) have n: "0 < n" by simp
  from False have none: "\<forall>q \<in> all_permutations n.
      \<not> dt_less_inf dt (paired_sum dt (working_matrix dt m open_tsp) q)" by blast
  from solve_raises[OF assms(1,2) n none] none show ?thesis by blast
next
  case True
  from assms(3) have n: "0 < n" by simp
  from solve_returns[OF assms(1,2) n True]
  obtain p where p: "p \<in> all_permutations n"
    and r: "snd (solve_tsp_brute_force dt h a open_tsp) =
       Inr (0 # p @ (if open_tsp then [] else [0]),
            Scalar (paired_sum dt (working_matrix dt m open_tsp) p))"
    by blast
  have "non_origin open_tsp (0 # p @ (if open_tsp then [] else [0])) = p"
    by (simp add: non_origin_def)
  with p r show ?thesis by auto
qed

theorem result_consistent_witness:
  "holds [triangle] 0 triangle \<and> square 3 triangle \<and> (1::nat) \<le> 3 \<and>
   snd (solve_tsp_brute_force float64 [triangle] 0 True) = Inr ([0, 1, 2], Scalar (Fin 4)) \<and>
   ((snd (solve_tsp_brute_force float64 [triangle] 0 True) = Inl TypeError \<and>
          (\<forall>q \<in> all_permutations 3.
             \<not> dt_less_inf float64 (paired_sum float64 (working_matrix float64 triangle True) q))) \<or>
    (\<exists>tour d. snd (solve_tsp_brute_force float64 [triangle] 0 True) = Inr (tour, Scalar d) \<and>
            non_origin True tour \<in> all_permutations 3 \<and>
            d = paired_sum float64 (working_matrix float64 triangle True) (non_origin True tour)))"
proof -
  have n: "(1::nat) \<le> 3" by simp
  have r: "snd (solve_tsp_brute_force float64 [triangle] 0 True) = Inr ([0, 1, 2], Scalar (Fin 4))"
    by (simp add: eval_simps triangle_def)
  from result_consistent[OF holds_self triangle_square n, of float64 True]
  show ?thesis using holds_self triangle_square r by simp
qed

text \<open>
  Claim C10. On the empty matrix the call raises an \<open>IndexError\<close> for both values of
  \<open>open_tsp\<close> and returns no tour. The enumeration over the empty range yields the
  empty permutation, and \<open>_permutation_distance\<close> of it on the empty matrix raises the
  \<open>IndexError\<close>; this is the error of the closed call. In the open call the assignment
  to column 0 of the copy raises the \<open>IndexError\<close> before the loop is reached.
\<close>

theorem empty_matrix_raises:
  assumes "holds h a []"
  shows "permutations [1..<shape0 (h ! a)] = [[]] \<and>
         permutation_distance dt [] [] = Inl IndexError \<and>
         snd (solve_tsp_brute_force dt h a False) = Inl IndexError \<and>
         snd (solve_tsp_brute_force dt h a True) = Inl IndexError \<and>
         snd (setitem_col0 (fst (ndarray_copy h a)) (snd (ndarray_copy h a)) (dt_zero dt))
           = Inl IndexError"
proof -
  from assms have m: "h ! a = []" by (simp add: holds_def)
  have pd: "permutation_distance dt [] [] = Inl IndexError"
    by (simp add: permutation_distance_def)
  have "snd (solve_tsp_brute_force dt h a False) = Inl IndexError"
    by (simp add: solve_closed m permutations_Nil pd finish_def)
  moreover have "snd (solve_tsp_brute_force dt h a True) = Inl IndexError"
    by (simp add: solve_open_error m shape1_def)
  moreover have "snd (setitem_col0 (fst (ndarray_copy h a)) (snd (ndarray_copy h a)) (dt_zero dt))
      = Inl IndexError"
    by (simp add: setitem_col0_def ndarray_copy_def m shape1_def)
  ultimately show ?thesis using pd by (simp add: m shape0_def permutations_Nil)
qed

theorem empty_matrix_raises_witness:
  "holds [[]] 0 ([] :: fl matrix) \<and>
   snd (solve_tsp_brute_force float64 [[]] 0 False) = Inl IndexError \<and>
   snd (solve_tsp_brute_force float64 [[]] 0 True) = Inl IndexError"
  using empty_matrix_raises[OF holds_self, where dt = float64] holds_self[of "[] :: fl matrix"]
  by simp

end
